theory Spec2Isabelle
  imports Complex_Main "HOL-Library.Multiset" "HOL-Library.List_Lexorder" "HOL-Library.Log_Nat"
begin

section \<open>Two-dimensional arrays\<close>

text \<open>
  The notebook \<^verbatim>\<open>fun_domain_pytorch.ipynb\<close> works on numpy arrays with two axes
  (each \<^verbatim>\<open>mat\<close> of the loaded stack \<^verbatim>\<open>X\<close>). Such an array is a shape
  \<^verbatim>\<open>(M.shape[0], M.shape[1])\<close> together with its entries in row-major (C) order, which is
  what \<^verbatim>\<open>np.reshape(M, -1)\<close> reads. Entries are numbers under their usual total order;
  NaN is not part of the model. A record is an array when the number of stored entries is the
  product of the two extents.
\<close>

record 'a ndarray =
  shape :: "nat \<times> nat"
  flat :: "'a list"

definition wf_array :: "'a ndarray \<Rightarrow> bool" where
  "wf_array M \<longleftrightarrow> length (flat M) = fst (shape M) * snd (shape M)"

text \<open>The Python exceptions that the modelled code can raise.\<close>

datatype error = IndexError | ValueError

text \<open>
  An integer index into an axis of extent \<open>n\<close>: numpy accepts \<open>0 \<le> i < n\<close>, counts a
  negative \<open>i \<ge> -n\<close> from the end, and raises \<^verbatim>\<open>IndexError\<close> otherwise.
\<close>

definition norm_index :: "nat \<Rightarrow> int \<Rightarrow> error + nat" where
  "norm_index n i =
     (if 0 \<le> i \<and> i < int n then Inr (nat i)
      else if - int n \<le> i \<and> i < 0 then Inr (nat (int n + i))
      else Inl IndexError)"

text \<open>
  The assignment \<^verbatim>\<open>v[[i,j]] = v[[j,i]]\<close> reads positions \<open>j\<close> and \<open>i\<close> of the old
  array and stores them at \<open>i\<close> and \<open>j\<close>: position \<open>r\<close> of the new array holds position
  \<open>exchange i j r\<close> of the old one.
\<close>

definition exchange :: "nat \<Rightarrow> nat \<Rightarrow> nat \<Rightarrow> nat" where
  "exchange i j r = (if r = i then j else if r = j then i else r)"

text \<open>A new array whose entry at flat position \<open>p\<close> is the old entry at position \<open>f p\<close>.\<close>

definition gather :: "(nat \<Rightarrow> nat) \<Rightarrow> 'a ndarray \<Rightarrow> 'a ndarray" where
  "gather f M = M\<lparr>flat := map (\<lambda>p. flat M ! f p) [0..<length (flat M)]\<rparr>"

section \<open>The pre-processing functions\<close>

text \<open>
  Entry \<open>(r, c)\<close> of an array with \<open>C\<close> columns sits at flat position \<open>r * C + c\<close>.
  \<open>row_perm C i j p\<close> is the position of the entry in the same column as \<open>p\<close> and in
  the exchanged row, \<open>col_perm C i j p\<close> the position in the same row and the exchanged
  column.
\<close>

definition row_perm :: "nat \<Rightarrow> nat \<Rightarrow> nat \<Rightarrow> nat \<Rightarrow> nat" where
  "row_perm C i j p = exchange i j (p div C) * C + p mod C"

definition col_perm :: "nat \<Rightarrow> nat \<Rightarrow> nat \<Rightarrow> nat \<Rightarrow> nat" where
  "col_perm C i j p = (p div C) * C + exchange i j (p mod C)"

text \<open>
  \<^verbatim>\<open>swap_rows(M, i, j)\<close>: \<^verbatim>\<open>v = M.copy(); v[[i,j]] = v[[j,i]]; return v\<close>.
  The right-hand side is read first, so \<open>j\<close> is checked before \<open>i\<close>.
\<close>

definition swap_rows :: "'a ndarray \<Rightarrow> int \<Rightarrow> int \<Rightarrow> error + 'a ndarray" where
  "swap_rows M i j =
     (case norm_index (fst (shape M)) j of Inl e \<Rightarrow> Inl e | Inr j' \<Rightarrow>
       (case norm_index (fst (shape M)) i of Inl e \<Rightarrow> Inl e | Inr i' \<Rightarrow>
          Inr (gather (row_perm (snd (shape M)) i' j') M)))"

text \<open>\<^verbatim>\<open>swap_cols(M, i, j)\<close>: \<^verbatim>\<open>v = M.copy(); v[:, [i,j]] = v[:, [j,i]]; return v\<close>.\<close>

definition swap_cols :: "'a ndarray \<Rightarrow> int \<Rightarrow> int \<Rightarrow> error + 'a ndarray" where
  "swap_cols M i j =
     (case norm_index (snd (shape M)) j of Inl e \<Rightarrow> Inl e | Inr j' \<Rightarrow>
       (case norm_index (snd (shape M)) i of Inl e \<Rightarrow> Inl e | Inr i' \<Rightarrow>
          Inr (gather (col_perm (snd (shape M)) i' j') M)))"

text \<open>
  An elementwise comparison of two one-dimensional arrays. numpy broadcasts: equal lengths
  are paired up, an array of length one is repeated against the other, anything else raises
  \<^verbatim>\<open>ValueError\<close> (operands could not be broadcast together).
\<close>

definition elementwise :: "('a \<Rightarrow> 'a \<Rightarrow> bool) \<Rightarrow> 'a list \<Rightarrow> 'a list \<Rightarrow> error + bool list" where
  "elementwise f A B =
     (if length A = length B then Inr (map2 f A B)
      else if length A = 1 then Inr (map (f (hd A)) B)
      else if length B = 1 then Inr (map (\<lambda>x. f x (hd B)) A)
      else Inl ValueError)"

text \<open>\<^verbatim>\<open>np.where(mask)[0]\<close>: the positions at which the condition holds, ascending.\<close>

definition np_where :: "bool list \<Rightarrow> nat list" where
  "np_where cond = filter (\<lambda>k. cond ! k) [0..<length cond]"

text \<open>
  \<^verbatim>\<open>greater(A, B)\<close>. Both arguments are flattened; \<^verbatim>\<open>(A>B) != (A<B)\<close> marks the positions
  where they differ. Taking element \<^verbatim>\<open>[0]\<close> of an empty index array raises the
  \<^verbatim>\<open>IndexError\<close> that the \<^verbatim>\<open>try\<close> catches (result \<^verbatim>\<open>False\<close>); the broadcast error is
  raised inside the \<^verbatim>\<open>try\<close> too but is not caught. \<^verbatim>\<open>A[idx]\<close> and \<^verbatim>\<open>B[idx]\<close> are read
  after the \<^verbatim>\<open>try\<close>, from the flattened arguments themselves.

  This is the function on two arrays of one element type whose entries are exactly and totally
  ordered: the case of every call inside \<^verbatim>\<open>maximise_matrix\<close>, which compares a swapped
  copy with the array it was copied from. Calls with arrays of different dtypes, or with
  NaN entries, are the subject of the section on element types below.
\<close>

definition greater :: "'a::linorder ndarray \<Rightarrow> 'a ndarray \<Rightarrow> error + bool" where
  "greater A0 B0 =
     (let A = flat A0; B = flat B0 in
      case elementwise (\<lambda>x y. (x > y) \<noteq> (x < y)) A B of
        Inl e \<Rightarrow> Inl e
      | Inr cond \<Rightarrow>
          (case np_where cond of
             [] \<Rightarrow> Inr False
           | idx # _ \<Rightarrow>
               if idx < length A \<and> idx < length B
               then (if A ! idx > B ! idx then Inr True else Inr False)
               else Inl IndexError))"

text \<open>\<^verbatim>\<open>itertools.combinations(xs, 2)\<close>: the pairs of positions \<open>i < j\<close>, in lexicographic order.\<close>

fun combinations2 :: "'a list \<Rightarrow> ('a \<times> 'a) list" where
  "combinations2 [] = []"
| "combinations2 (x # xs) = map (Pair x) xs @ combinations2 xs"

text \<open>A \<^verbatim>\<open>for\<close> loop over a list; an exception in the body leaves the loop.\<close>

fun for_loop :: "('s \<Rightarrow> 'x \<Rightarrow> error + 's) \<Rightarrow> 's \<Rightarrow> 'x list \<Rightarrow> error + 's" where
  "for_loop body s [] = Inr s"
| "for_loop body s (x # xs) =
     (case body s x of Inl e \<Rightarrow> Inl e | Inr s' \<Rightarrow> for_loop body s' xs)"

text \<open>
  The bodies of the two \<^verbatim>\<open>for\<close> loops of \<^verbatim>\<open>maximise_matrix\<close>. The loop state is the
  pair of the local variables \<^verbatim>\<open>M\<close> and \<^verbatim>\<open>max_found\<close>. The swap is computed once for the
  test and once more for the assignment, as in the source.
\<close>

definition row_step :: "'a::linorder ndarray \<times> bool \<Rightarrow> int \<times> int \<Rightarrow> error + 'a ndarray \<times> bool" where
  "row_step st rowpair =
     (case st of (M, max_found) \<Rightarrow>
       (case swap_rows M (fst rowpair) (snd rowpair) of Inl e \<Rightarrow> Inl e | Inr S \<Rightarrow>
         (case greater S M of Inl e \<Rightarrow> Inl e | Inr g \<Rightarrow>
            if g then
              (case swap_rows M (fst rowpair) (snd rowpair) of Inl e \<Rightarrow> Inl e
               | Inr S' \<Rightarrow> Inr (S', False))
            else Inr (M, max_found))))"

definition col_step :: "'a::linorder ndarray \<times> bool \<Rightarrow> int \<times> int \<Rightarrow> error + 'a ndarray \<times> bool" where
  "col_step st colpair =
     (case st of (M, max_found) \<Rightarrow>
       (case swap_cols M (fst colpair) (snd colpair) of Inl e \<Rightarrow> Inl e | Inr S \<Rightarrow>
         (case greater S M of Inl e \<Rightarrow> Inl e | Inr g \<Rightarrow>
            if g then
              (case swap_cols M (fst colpair) (snd colpair) of Inl e \<Rightarrow> Inl e
               | Inr S' \<Rightarrow> Inr (S', False))
            else Inr (M, max_found))))"

text \<open>\<^verbatim>\<open>range(n)\<close> as a list of Python integers.\<close>

definition range_py :: "nat \<Rightarrow> int list" where
  "range_py n = map int [0..<n]"

text \<open>
  One run of the body of the \<^verbatim>\<open>while\<close> loop: \<^verbatim>\<open>max_found = True\<close>, the loop over
  the row pairs, then the loop over the column pairs.
\<close>

definition one_pass :: "nat \<Rightarrow> nat \<Rightarrow> 'a::linorder ndarray \<Rightarrow> error + 'a ndarray \<times> bool" where
  "one_pass rows cols M =
     (case for_loop row_step (M, True) (combinations2 (range_py rows)) of
        Inl e \<Rightarrow> Inl e
      | Inr st \<Rightarrow> for_loop col_step st (combinations2 (range_py cols)))"

text \<open>
  The \<^verbatim>\<open>while not max_found\<close> loop. Nothing bounds the number of passes in the source, so
  the loop is a partial function: \<open>None\<close> stands for a run that never returns,
  \<open>Some (Inl e)\<close> for an exception, \<open>Some (Inr M')\<close> for the returned array.
\<close>

partial_function (option) while_not_max_found ::
  "nat \<Rightarrow> nat \<Rightarrow> 'a::linorder ndarray \<Rightarrow> (error + 'a ndarray) option" where
  "while_not_max_found rows cols M =
     (case one_pass rows cols M of
        Inl e \<Rightarrow> Some (Inl e)
      | Inr st \<Rightarrow>
          if \<not> snd st then while_not_max_found rows cols (fst st) else Some (Inr (fst st)))"

text \<open>
  \<^verbatim>\<open>maximise_matrix(M)\<close>: the extents are read once; \<^verbatim>\<open>max_found\<close> starts as
  \<^verbatim>\<open>False\<close>, so the loop body runs at least once.
\<close>

declare while_not_max_found.simps [code]

definition maximise_matrix :: "'a::linorder ndarray \<Rightarrow> (error + 'a ndarray) option" where
  "maximise_matrix M = while_not_max_found (fst (shape M)) (snd (shape M)) M"

section \<open>Element types\<close>

text \<open>
  A numpy array carries a dtype, and \<^verbatim>\<open>greater\<close> may be called with two arrays of different
  dtypes. This section models the function for the two default numeric dtypes, int64 and
  float64.
\<close>









section \<open>The worked example of the notebook\<close>

text \<open>
  The matrix of the notebook's introduction, the matrix that the introduction gives as its
  image under the ideal map \<open>F\<close>, and the matrix that \<^verbatim>\<open>maximise_matrix\<close> reaches.
\<close>

definition example_input :: "int ndarray" where
  "example_input = \<lparr>shape = (3, 3), flat = [0, 0, 0,  0, 1, 3,  2, 1, 1]\<rparr>"

definition documented_image :: "int ndarray" where
  "documented_image = \<lparr>shape = (3, 3), flat = [3, 1, 0,  1, 1, 2,  0, 0, 0]\<rparr>"

definition reached_image :: "int ndarray" where
  "reached_image = \<lparr>shape = (3, 3), flat = [2, 1, 1,  0, 3, 1,  0, 0, 0]\<rparr>"

section \<open>Objects and references\<close>

text \<open>
  Python passes arrays by reference and \<^verbatim>\<open>v[...] = ...\<close> writes into the object that
  \<open>v\<close> refers to. To speak about the caller's array, the functions are modelled a second
  time over an object store: a heap is the list of all array objects created so far and a
  reference is a position in it. \<^verbatim>\<open>M.copy()\<close> appends a new object; the indexed
  assignment overwrites the object at its reference. \<^verbatim>\<open>greater\<close> only reads its arguments.
\<close>

type_synonym 'a heap = "'a ndarray list"

definition copy_h :: "'a heap \<Rightarrow> nat \<Rightarrow> nat \<times> 'a heap" where
  "copy_h h m = (length h, h @ [h ! m])"

definition swap_rows_h :: "'a heap \<Rightarrow> nat \<Rightarrow> int \<Rightarrow> int \<Rightarrow> error + nat \<times> 'a heap" where
  "swap_rows_h h m i j =
     (case copy_h h m of (v, h1) \<Rightarrow>
       (case swap_rows (h1 ! v) i j of Inl e \<Rightarrow> Inl e | Inr S \<Rightarrow> Inr (v, h1[v := S])))"

definition swap_cols_h :: "'a heap \<Rightarrow> nat \<Rightarrow> int \<Rightarrow> int \<Rightarrow> error + nat \<times> 'a heap" where
  "swap_cols_h h m i j =
     (case copy_h h m of (v, h1) \<Rightarrow>
       (case swap_cols (h1 ! v) i j of Inl e \<Rightarrow> Inl e | Inr S \<Rightarrow> Inr (v, h1[v := S])))"

text \<open>
  The loop bodies over the store. The state is the heap, the reference held by the local
  variable \<^verbatim>\<open>M\<close>, and \<^verbatim>\<open>max_found\<close>. An accepted swap rebinds \<^verbatim>\<open>M\<close> to the
  object returned by the second call of the swap function.
\<close>

definition row_step_h ::
  "'a::linorder heap \<times> nat \<times> bool \<Rightarrow> int \<times> int \<Rightarrow> error + 'a heap \<times> nat \<times> bool" where
  "row_step_h st rowpair =
     (case st of (h, m, max_found) \<Rightarrow>
       (case swap_rows_h h m (fst rowpair) (snd rowpair) of Inl e \<Rightarrow> Inl e | Inr (t, h1) \<Rightarrow>
         (case greater (h1 ! t) (h1 ! m) of Inl e \<Rightarrow> Inl e | Inr g \<Rightarrow>
            if g then
              (case swap_rows_h h1 m (fst rowpair) (snd rowpair) of Inl e \<Rightarrow> Inl e
               | Inr (v, h2) \<Rightarrow> Inr (h2, v, False))
            else Inr (h1, m, max_found))))"

definition col_step_h ::
  "'a::linorder heap \<times> nat \<times> bool \<Rightarrow> int \<times> int \<Rightarrow> error + 'a heap \<times> nat \<times> bool" where
  "col_step_h st colpair =
     (case st of (h, m, max_found) \<Rightarrow>
       (case swap_cols_h h m (fst colpair) (snd colpair) of Inl e \<Rightarrow> Inl e | Inr (t, h1) \<Rightarrow>
         (case greater (h1 ! t) (h1 ! m) of Inl e \<Rightarrow> Inl e | Inr g \<Rightarrow>
            if g then
              (case swap_cols_h h1 m (fst colpair) (snd colpair) of Inl e \<Rightarrow> Inl e
               | Inr (v, h2) \<Rightarrow> Inr (h2, v, False))
            else Inr (h1, m, max_found))))"

definition one_pass_h ::
  "nat \<Rightarrow> nat \<Rightarrow> 'a::linorder heap \<Rightarrow> nat \<Rightarrow> error + 'a heap \<times> nat \<times> bool" where
  "one_pass_h rows cols h m =
     (case for_loop row_step_h (h, m, True) (combinations2 (range_py rows)) of
        Inl e \<Rightarrow> Inl e
      | Inr st \<Rightarrow> for_loop col_step_h st (combinations2 (range_py cols)))"

partial_function (option) while_not_max_found_h ::
  "nat \<Rightarrow> nat \<Rightarrow> 'a::linorder heap \<Rightarrow> nat \<Rightarrow> (error + nat \<times> 'a heap) option" where
  "while_not_max_found_h rows cols h m =
     (case one_pass_h rows cols h m of
        Inl e \<Rightarrow> Some (Inl e)
      | Inr st \<Rightarrow>
          if \<not> snd (snd st) then while_not_max_found_h rows cols (fst st) (fst (snd st))
          else Some (Inr (fst (snd st), fst st)))"

declare while_not_max_found_h.simps [code]

text \<open>The call \<^verbatim>\<open>maximise_matrix(M)\<close> with \<^verbatim>\<open>M\<close> bound to reference \<open>m\<close>; it returns a reference.\<close>

definition maximise_matrix_h :: "'a::linorder heap \<Rightarrow> nat \<Rightarrow> (error + nat \<times> 'a heap) option" where
  "maximise_matrix_h h m =
     while_not_max_found_h (fst (shape (h ! m))) (snd (shape (h ! m))) h m"

section \<open>Specification vocabulary\<close>

text \<open>
  The array that a loop body compares against the current one, for a pair of indices taken
  from \<^verbatim>\<open>range\<close>, and the property that no exchange of two rows or of two columns has a
  greater row-major reading. They are used to state loop invariants only.
\<close>

definition row_cand :: "'a ndarray \<Rightarrow> int \<times> int \<Rightarrow> 'a ndarray" where
  "row_cand M p = gather (row_perm (snd (shape M)) (nat (fst p)) (nat (snd p))) M"

definition col_cand :: "'a ndarray \<Rightarrow> int \<times> int \<Rightarrow> 'a ndarray" where
  "col_cand M p = gather (col_perm (snd (shape M)) (nat (fst p)) (nat (snd p))) M"

definition locally_maximal :: "'a::linorder ndarray \<Rightarrow> bool" where
  "locally_maximal M \<longleftrightarrow>
     (\<forall>i<fst (shape M). \<forall>j<fst (shape M).
        \<not> flat M < flat (gather (row_perm (snd (shape M)) i j) M)) \<and>
     (\<forall>i<snd (shape M). \<forall>j<snd (shape M).
        \<not> flat M < flat (gather (col_perm (snd (shape M)) i j) M))"

text \<open>
  \<open>M'\<close> is a row and column rearrangement of \<open>M\<close>: same shape, and for a permutation
  of the row indices and a permutation of the column indices, entry \<open>(r, c)\<close> of \<open>M'\<close> is
  entry \<open>(rho r, gam c)\<close> of \<open>M\<close>.
\<close>

definition rearrangement_of :: "'a ndarray \<Rightarrow> 'a ndarray \<Rightarrow> bool" where
  "rearrangement_of M M' \<longleftrightarrow>
     shape M' = shape M \<and>
     (\<exists>rho gam. bij_betw rho {..<fst (shape M)} {..<fst (shape M)}
        \<and> bij_betw gam {..<snd (shape M)} {..<snd (shape M)}
        \<and> (\<forall>r<fst (shape M). \<forall>c<snd (shape M).
              flat M' ! (r * snd (shape M) + c) = flat M ! (rho r * snd (shape M) + gam c)))"

section \<open>Indices, exchanges and gathering\<close>

lemma norm_index_bound: "norm_index n i = Inr k \<Longrightarrow> k < n"
  by (auto simp: norm_index_def split: if_splits)

lemma norm_index_error: "norm_index n i = Inl e \<Longrightarrow> e = IndexError"
  by (auto simp: norm_index_def split: if_splits)

lemma norm_index_int: "k < n \<Longrightarrow> norm_index n (int k) = Inr k"
  by (simp add: norm_index_def)

lemma exchange_commute: "exchange i j = exchange j i"
  by (auto simp: exchange_def fun_eq_iff)

lemma exchange_same: "exchange i i r = r"
  by (simp add: exchange_def)

lemma exchange_involution: "exchange i j (exchange i j r) = r"
  by (simp add: exchange_def)

lemma exchange_less: "i < n \<Longrightarrow> j < n \<Longrightarrow> r < n \<Longrightarrow> exchange i j r < n"
  by (simp add: exchange_def)

lemma cell_less: "(q::nat) < R \<Longrightarrow> c < C \<Longrightarrow> q * C + c < R * C"
proof -
  assume q: "q < R" and c: "c < C"
  have "q * C + c < q * C + C" using c by simp
  also have "\<dots> = Suc q * C" by simp
  also have "\<dots> \<le> R * C" using q by (intro mult_le_mono1) simp
  finally show ?thesis .
qed

lemma mset_permuted:
  assumes "\<And>p. p < length xs \<Longrightarrow> f p < length xs \<and> f (f p) = p"
  shows "mset (map (\<lambda>p. xs ! f p) [0..<length xs]) = mset xs"
proof -
  let ?n = "length xs"
  have inj: "inj_on f {0..<?n}"
    by (rule inj_onI) (metis assms atLeastLessThan_iff)
  have img: "f ` {0..<?n} = {0..<?n}"
  proof (intro equalityI subsetI)
    fix y assume "y \<in> f ` {0..<?n}"
    then show "y \<in> {0..<?n}" using assms by auto
  next
    fix y assume y: "y \<in> {0..<?n}"
    then have "f y \<in> {0..<?n}" and "f (f y) = y" using assms by auto
    then show "y \<in> f ` {0..<?n}" by (metis imageI)
  qed
  have "mset (map f [0..<?n]) = image_mset f (mset_set {0..<?n})"
    by simp
  also have "\<dots> = mset_set {0..<?n}"
    using image_mset_mset_set [OF inj] img by simp
  finally have perm: "mset (map f [0..<?n]) = mset [0..<?n]"
    by simp
  have "mset (map (\<lambda>p. xs ! f p) [0..<?n]) = image_mset (nth xs) (mset (map f [0..<?n]))"
    by (simp add: multiset.map_comp comp_def)
  also have "\<dots> = mset (map (nth xs) [0..<?n])"
    unfolding perm by simp
  also have "\<dots> = mset xs"
    by (simp add: map_nth)
  finally show ?thesis .
qed

lemma gather_shape: "shape (gather f M) = shape M"
  by (simp add: gather_def)

lemma gather_length: "length (flat (gather f M)) = length (flat M)"
  by (simp add: gather_def)

lemma gather_wf: "wf_array M \<Longrightarrow> wf_array (gather f M)"
  by (simp add: wf_array_def gather_def)

lemma gather_mset:
  assumes "\<And>p. p < length (flat M) \<Longrightarrow> f p < length (flat M) \<and> f (f p) = p"
  shows "mset (flat (gather f M)) = mset (flat M)"
  using mset_permuted [of "flat M" f] assms by (simp add: gather_def)

lemma gather_ident:
  assumes "\<And>p. p < length (flat M) \<Longrightarrow> f p = p"
  shows "gather f M = M"
proof -
  have "map (\<lambda>p. flat M ! f p) [0..<length (flat M)] = map (nth (flat M)) [0..<length (flat M)]"
    using assms by (intro map_cong) auto
  then show ?thesis by (simp add: gather_def map_nth)
qed

lemma row_perm_ok:
  assumes "i < R" "j < R" "p < R * C"
  shows "row_perm C i j p < R * C \<and> row_perm C i j (row_perm C i j p) = p"
proof -
  have C: "0 < C" using assms(3) by (cases C) auto
  have q: "p div C < R" using assms(3) C by (simp add: less_mult_imp_div_less)
  have r: "p mod C < C" using C by simp
  have e: "exchange i j (p div C) < R" using assms q by (simp add: exchange_less)
  have 1: "row_perm C i j p < R * C" unfolding row_perm_def by (rule cell_less [OF e r])
  have 2: "row_perm C i j p div C = exchange i j (p div C)"
    unfolding row_perm_def using C by simp
  have 3: "row_perm C i j p mod C = p mod C"
    unfolding row_perm_def by simp
  show ?thesis using 1 2 3 by (simp add: row_perm_def [of C i j "row_perm C i j p"] exchange_involution)
qed

lemma col_perm_ok:
  assumes "i < C" "j < C" "p < R * C"
  shows "col_perm C i j p < R * C \<and> col_perm C i j (col_perm C i j p) = p"
proof -
  have C: "0 < C" using assms(1) by simp
  have q: "p div C < R" using assms(3) C by (simp add: less_mult_imp_div_less)
  have r: "p mod C < C" using C by simp
  have e: "exchange i j (p mod C) < C" using assms r by (simp add: exchange_less)
  have 1: "col_perm C i j p < R * C" unfolding col_perm_def by (rule cell_less [OF q e])
  have 2: "col_perm C i j p div C = p div C"
    unfolding col_perm_def using e by simp
  have 3: "col_perm C i j p mod C = exchange i j (p mod C)"
    unfolding col_perm_def using e by simp
  show ?thesis using 1 2 3 by (simp add: col_perm_def [of C i j "col_perm C i j p"] exchange_involution)
qed

section \<open>The two swaps\<close>

lemma swap_rows_valid:
  assumes "swap_rows M i j = Inr S"
  obtains i' j' where "i' < fst (shape M)" "j' < fst (shape M)"
    "norm_index (fst (shape M)) i = Inr i'" "norm_index (fst (shape M)) j = Inr j'"
    "S = gather (row_perm (snd (shape M)) i' j') M"
  using assms by (auto simp: swap_rows_def split: sum.splits dest: norm_index_bound)

lemma swap_cols_valid:
  assumes "swap_cols M i j = Inr S"
  obtains i' j' where "i' < snd (shape M)" "j' < snd (shape M)"
    "norm_index (snd (shape M)) i = Inr i'" "norm_index (snd (shape M)) j = Inr j'"
    "S = gather (col_perm (snd (shape M)) i' j') M"
  using assms by (auto simp: swap_cols_def split: sum.splits dest: norm_index_bound)

lemma swap_rows_int:
  "i < fst (shape M) \<Longrightarrow> j < fst (shape M) \<Longrightarrow>
   swap_rows M (int i) (int j) = Inr (gather (row_perm (snd (shape M)) i j) M)"
  by (simp add: swap_rows_def norm_index_int)

lemma swap_cols_int:
  "i < snd (shape M) \<Longrightarrow> j < snd (shape M) \<Longrightarrow>
   swap_cols M (int i) (int j) = Inr (gather (col_perm (snd (shape M)) i j) M)"
  by (simp add: swap_cols_def norm_index_int)

lemma row_perm_commute: "row_perm C i j = row_perm C j i"
  by (simp add: row_perm_def fun_eq_iff exchange_commute [of i j])

lemma col_perm_commute: "col_perm C i j = col_perm C j i"
  by (simp add: col_perm_def fun_eq_iff exchange_commute [of i j])

lemma gather_row_perm_same: "gather (row_perm C i i) M = M"
  by (rule gather_ident) (simp add: row_perm_def exchange_same)

lemma gather_col_perm_same: "gather (col_perm C i i) M = M"
  by (rule gather_ident) (simp add: col_perm_def exchange_same)

lemma gather_row_perm_mset:
  assumes "wf_array M" "i < fst (shape M)" "j < fst (shape M)"
  shows "mset (flat (gather (row_perm (snd (shape M)) i j) M)) = mset (flat M)"
  using assms by (intro gather_mset) (metis row_perm_ok wf_array_def)

lemma gather_col_perm_mset:
  assumes "wf_array M" "i < snd (shape M)" "j < snd (shape M)"
  shows "mset (flat (gather (col_perm (snd (shape M)) i j) M)) = mset (flat M)"
  using assms by (intro gather_mset) (metis col_perm_ok wf_array_def)

lemma rearrangement_refl: "rearrangement_of M M"
  unfolding rearrangement_of_def
  by (intro conjI exI [of _ id]) simp_all

lemma rearrangement_trans:
  assumes "rearrangement_of A B" "rearrangement_of B D"
  shows "rearrangement_of A D"
proof -
  let ?R = "fst (shape A)" and ?C = "snd (shape A)"
  from assms(1) obtain r1 g1 where sh1: "shape B = shape A"
    and b1: "bij_betw r1 {..<?R} {..<?R}" "bij_betw g1 {..<?C} {..<?C}"
    and e1: "\<And>r c. r < ?R \<Longrightarrow> c < ?C \<Longrightarrow> flat B ! (r * ?C + c) = flat A ! (r1 r * ?C + g1 c)"
    unfolding rearrangement_of_def by blast
  from assms(2) sh1 obtain r2 g2 where sh2: "shape D = shape A"
    and b2: "bij_betw r2 {..<?R} {..<?R}" "bij_betw g2 {..<?C} {..<?C}"
    and e2: "\<And>r c. r < ?R \<Longrightarrow> c < ?C \<Longrightarrow> flat D ! (r * ?C + c) = flat B ! (r2 r * ?C + g2 c)"
    unfolding rearrangement_of_def by auto
  have in2: "r2 r < ?R" if "r < ?R" for r using b2(1) that by (auto simp: bij_betw_def)
  have in2': "g2 c < ?C" if "c < ?C" for c using b2(2) that by (auto simp: bij_betw_def)
  have "bij_betw (r1 \<circ> r2) {..<?R} {..<?R}" using b2(1) b1(1) by (rule bij_betw_trans)
  moreover have "bij_betw (g1 \<circ> g2) {..<?C} {..<?C}" using b2(2) b1(2) by (rule bij_betw_trans)
  moreover have "\<forall>r<?R. \<forall>c<?C. flat D ! (r * ?C + c) = flat A ! ((r1 \<circ> r2) r * ?C + (g1 \<circ> g2) c)"
    using e1 e2 in2 in2' by simp
  ultimately show ?thesis using sh2 unfolding rearrangement_of_def by blast
qed

lemma exchange_bij: "i < n \<Longrightarrow> j < n \<Longrightarrow> bij_betw (exchange i j) {..<n} {..<n}"
  by (rule bij_betw_byWitness [where f' = "exchange i j"])
     (auto simp: exchange_involution exchange_less)

lemma gather_nth: "p < length (flat M) \<Longrightarrow> flat (gather f M) ! p = flat M ! f p"
  by (simp add: gather_def)

lemma gather_row_rearrangement:
  assumes "wf_array M" "i < fst (shape M)" "j < fst (shape M)"
  shows "rearrangement_of M (gather (row_perm (snd (shape M)) i j) M)"
proof -
  let ?R = "fst (shape M)" and ?C = "snd (shape M)"
  have "flat (gather (row_perm ?C i j) M) ! (r * ?C + c) = flat M ! (exchange i j r * ?C + id c)"
    if "r < ?R" "c < ?C" for r c
  proof -
    have "r * ?C + c < length (flat M)"
      using assms(1) cell_less [OF that] by (simp add: wf_array_def)
    then have "flat (gather (row_perm ?C i j) M) ! (r * ?C + c) = flat M ! row_perm ?C i j (r * ?C + c)"
      by (rule gather_nth)
    also have "row_perm ?C i j (r * ?C + c) = exchange i j r * ?C + id c"
      using that(2) by (simp add: row_perm_def)
    finally show ?thesis .
  qed
  moreover have "bij_betw (exchange i j) {..<?R} {..<?R}" using assms(2,3) by (rule exchange_bij)
  moreover have "bij_betw id {..<?C} {..<?C}" by simp
  ultimately show ?thesis unfolding rearrangement_of_def gather_shape by blast
qed

lemma gather_col_rearrangement:
  assumes "wf_array M" "i < snd (shape M)" "j < snd (shape M)"
  shows "rearrangement_of M (gather (col_perm (snd (shape M)) i j) M)"
proof -
  let ?R = "fst (shape M)" and ?C = "snd (shape M)"
  have "flat (gather (col_perm ?C i j) M) ! (r * ?C + c) = flat M ! (id r * ?C + exchange i j c)"
    if "r < ?R" "c < ?C" for r c
  proof -
    have "r * ?C + c < length (flat M)"
      using assms(1) cell_less [OF that] by (simp add: wf_array_def)
    then have "flat (gather (col_perm ?C i j) M) ! (r * ?C + c) = flat M ! col_perm ?C i j (r * ?C + c)"
      by (rule gather_nth)
    also have "col_perm ?C i j (r * ?C + c) = id r * ?C + exchange i j c"
      using that(2) by (simp add: col_perm_def)
    finally show ?thesis .
  qed
  moreover have "bij_betw (exchange i j) {..<?C} {..<?C}" using assms(2,3) by (rule exchange_bij)
  moreover have "bij_betw id {..<?R} {..<?R}" by simp
  ultimately show ?thesis unfolding rearrangement_of_def gather_shape by blast
qed

section \<open>The comparator\<close>

lemma filter_upt_first:
  "filter P [m..<n] = k # ks \<Longrightarrow> m \<le> k \<and> k < n \<and> P k \<and> (\<forall>l. m \<le> l \<and> l < k \<longrightarrow> \<not> P l)"
proof (induction "n - m" arbitrary: m)
  case 0
  then show ?case by simp
next
  case (Suc d)
  then have mn: "m < n" by simp
  then have unfold: "[m..<n] = m # [Suc m..<n]" by (simp add: upt_rec)
  show ?case
  proof (cases "P m")
    case True
    with Suc.prems unfold have "k = m" by simp
    with True mn show ?thesis by auto
  next
    case False
    with Suc.prems unfold have "filter P [Suc m..<n] = k # ks" by simp
    moreover have "d = n - Suc m" using Suc.hyps(2) by simp
    ultimately have IH: "Suc m \<le> k \<and> k < n \<and> P k \<and> (\<forall>l. Suc m \<le> l \<and> l < k \<longrightarrow> \<not> P l)"
      using Suc.hyps(1) by blast
    have "\<not> P l" if "m \<le> l" "l < k" for l
    proof (cases "l = m")
      case True
      with False show ?thesis by simp
    next
      case False
      with that have "Suc m \<le> l" by simp
      with IH that show ?thesis by blast
    qed
    with IH show ?thesis by simp
  qed
qed

lemma less_at_first_difference:
  fixes a b :: "'a::linorder list"
  assumes len: "length a = length b" and k: "k < length a"
    and pre: "\<forall>l<k. a ! l = b ! l"
  shows "b < a \<longleftrightarrow> b ! k < a ! k \<or> (b ! k = a ! k \<and> drop (Suc k) b < drop (Suc k) a)"
proof -
  have tk: "take k a = take k b"
    using len k pre by (intro nth_take_lemma) auto
  have a: "a = take k a @ a ! k # drop (Suc k) a" using k by (simp add: id_take_nth_drop)
  have b: "b = take k a @ b ! k # drop (Suc k) b" using k len tk by (simp add: id_take_nth_drop)
  have "b < a \<longleftrightarrow> (take k a @ b ! k # drop (Suc k) b, take k a @ a ! k # drop (Suc k) a) \<in> lexord {(u, v). u < v}"
    using a b by (simp add: list_less_def)
  also have "\<dots> \<longleftrightarrow> (b ! k # drop (Suc k) b, a ! k # drop (Suc k) a) \<in> lexord {(u, v). u < v}"
    by (simp add: lexord_same_pref_iff)
  also have "\<dots> \<longleftrightarrow> b ! k < a ! k \<or> (b ! k = a ! k \<and> drop (Suc k) b < drop (Suc k) a)"
    by (simp add: list_less_def)
  finally show ?thesis .
qed

lemma np_where_empty: "np_where cond = [] \<longleftrightarrow> (\<forall>k<length cond. \<not> cond ! k)"
  by (auto simp: np_where_def filter_empty_conv)

lemma np_where_first:
  "np_where cond = k # ks \<Longrightarrow> k < length cond \<and> cond ! k \<and> (\<forall>l<k. \<not> cond ! l)"
proof -
  assume "np_where cond = k # ks"
  then have "filter (\<lambda>k. cond ! k) [0..<length cond] = k # ks"
    by (simp add: np_where_def)
  from filter_upt_first [OF this] show ?thesis by simp
qed

lemma greater_equal_length:
  fixes A B :: "'a::linorder ndarray"
  assumes len: "length (flat A) = length (flat B)"
  shows "greater A B = Inr (flat B < flat A)"
proof -
  let ?a = "flat A" and ?b = "flat B"
  let ?cond = "map2 (\<lambda>x y. (x > y) \<noteq> (x < y)) ?a ?b"
  have el: "elementwise (\<lambda>x y. (x > y) \<noteq> (x < y)) ?a ?b = Inr ?cond"
    using len by (simp add: elementwise_def)
  have lc: "length ?cond = length ?a" using len by simp
  have nth: "?cond ! l \<longleftrightarrow> ?a ! l \<noteq> ?b ! l" if "l < length ?a" for l
    using that len by auto
  show ?thesis
  proof (cases "np_where ?cond")
    case Nil
    then have "\<forall>l<length ?a. ?a ! l = ?b ! l"
      using nth lc by (simp add: np_where_empty)
    then have "?a = ?b" using len by (intro nth_equalityI) auto
    then show ?thesis using Nil el by (simp add: greater_def)
  next
    case (Cons k ks)
    from np_where_first [OF Cons] have k: "k < length ?a" and dk: "?a ! k \<noteq> ?b ! k"
      and pre: "\<forall>l<k. ?a ! l = ?b ! l"
      using nth lc by auto
    have "flat B < flat A \<longleftrightarrow> ?b ! k < ?a ! k"
      using less_at_first_difference [OF len k pre] dk by auto
    then show ?thesis using Cons el k len by (simp add: greater_def)
  qed
qed

section \<open>The loops\<close>

lemma combinations2_mem: "p \<in> set (combinations2 xs) \<Longrightarrow> fst p \<in> set xs \<and> snd p \<in> set xs"
proof (induction xs)
  case Nil
  then show ?case by simp
next
  case (Cons x xs)
  from Cons.prems have "p \<in> Pair x ` set xs \<or> p \<in> set (combinations2 xs)"
    by simp
  then show ?case
  proof
    assume "p \<in> Pair x ` set xs"
    then obtain y where "y \<in> set xs" "p = (x, y)" by blast
    then show ?thesis by simp
  next
    assume "p \<in> set (combinations2 xs)"
    from Cons.IH [OF this] show ?thesis by simp
  qed
qed

lemma combinations2_nth:
  "k < l \<Longrightarrow> l < length xs \<Longrightarrow> (xs ! k, xs ! l) \<in> set (combinations2 xs)"
proof (induction xs arbitrary: k l)
  case Nil
  then show ?case by simp
next
  case (Cons x xs)
  from Cons.prems obtain l' where l: "l = Suc l'" "l' < length xs"
    by (cases l) simp_all
  show ?case
  proof (cases k)
    case 0
    have "(x, xs ! l') \<in> Pair x ` set xs" using l(2) by simp
    with 0 l show ?thesis by simp
  next
    case (Suc k')
    with Cons.prems l have "k' < l'" by simp
    from Cons.IH [OF this l(2)] have "(xs ! k', xs ! l') \<in> set (combinations2 xs)" .
    with Suc l show ?thesis by simp
  qed
qed

lemma range_nth: "k < n \<Longrightarrow> range_py n ! k = int k"
  by (simp add: range_py_def)

lemma range_length: "length (range_py n) = n"
  by (simp add: range_py_def)

lemma range_mem: "x \<in> set (range_py n) \<Longrightarrow> \<exists>k<n. x = int k"
  by (auto simp: range_py_def)

lemma range_pairs:
  assumes "i < j" "j < n"
  shows "(int i, int j) \<in> set (combinations2 (range_py n))"
proof -
  have "(range_py n ! i, range_py n ! j) \<in> set (combinations2 (range_py n))"
    using assms by (intro combinations2_nth) (simp_all add: range_length)
  then show ?thesis using assms by (simp add: range_nth)
qed

lemma climb_loop:
  fixes step :: "'a::linorder ndarray \<times> bool \<Rightarrow> 'x \<Rightarrow> error + 'a ndarray \<times> bool"
    and cand :: "'a ndarray \<Rightarrow> 'x \<Rightarrow> 'a ndarray"
  assumes step: "\<And>M mf x. wf_array M \<Longrightarrow> shape M = sh \<Longrightarrow> x \<in> X \<Longrightarrow>
      step (M, mf) x = Inr (if flat M < flat (cand M x) then (cand M x, False) else (M, mf))"
    and cand: "\<And>M x. wf_array M \<Longrightarrow> shape M = sh \<Longrightarrow> x \<in> X \<Longrightarrow>
      wf_array (cand M x) \<and> shape (cand M x) = sh \<and> mset (flat (cand M x)) = mset (flat M)
      \<and> rearrangement_of M (cand M x)"
    and M: "wf_array M" "shape M = sh" and xs: "set xs \<subseteq> X"
  shows "\<exists>M' mf'. for_loop step (M, mf) xs = Inr (M', mf') \<and> wf_array M' \<and> shape M' = sh
           \<and> mset (flat M') = mset (flat M) \<and> rearrangement_of M M' \<and> flat M \<le> flat M'
           \<and> (mf' \<longrightarrow> mf \<and> M' = M \<and> (\<forall>x\<in>set xs. \<not> flat M < flat (cand M x)))
           \<and> (\<not> mf' \<longrightarrow> \<not> mf \<or> flat M < flat M')"
  using M xs
proof (induction xs arbitrary: M mf)
  case Nil
  then show ?case by (simp add: rearrangement_refl)
next
  case (Cons x xs)
  have x: "x \<in> X" and xs: "set xs \<subseteq> X" using Cons.prems(3) by auto
  note st = step [OF Cons.prems(1,2) x, of mf]
  note cd = cand [OF Cons.prems(1,2) x]
  show ?case
  proof (cases "flat M < flat (cand M x)")
    case True
    from cd have c: "wf_array (cand M x)" "shape (cand M x) = sh" by auto
    from Cons.IH [OF c xs, of False] obtain M' mf' where
      r: "for_loop step (cand M x, False) xs = Inr (M', mf')" "wf_array M'" "shape M' = sh"
        "mset (flat M') = mset (flat (cand M x))" "flat (cand M x) \<le> flat M'" "\<not> mf'"
        "rearrangement_of (cand M x) M'"
      by blast
    have "for_loop step (M, mf) (x # xs) = Inr (M', mf')"
      using st True r(1) by simp
    moreover have lt: "flat M < flat M'" using True r(5) by (rule less_le_trans)
    moreover have "flat M \<le> flat M'" using lt by (rule less_imp_le)
    moreover have "mset (flat M') = mset (flat M)" using r(4) cd by (simp only:)
    moreover have "rearrangement_of M M'" using cd r(7) by (blast intro: rearrangement_trans)
    ultimately show ?thesis using r(2,3,6) by blast
  next
    case False
    from Cons.IH [OF Cons.prems(1,2) xs, of mf] obtain M' mf' where
      r: "for_loop step (M, mf) xs = Inr (M', mf')" "wf_array M'" "shape M' = sh"
        "mset (flat M') = mset (flat M)" "flat M \<le> flat M'"
        "mf' \<longrightarrow> mf \<and> M' = M \<and> (\<forall>x\<in>set xs. \<not> flat M < flat (cand M x))"
        "\<not> mf' \<longrightarrow> \<not> mf \<or> flat M < flat M'" "rearrangement_of M M'"
      by blast
    have "for_loop step (M, mf) (x # xs) = Inr (M', mf')"
      using st False r(1) by simp
    moreover have "mf' \<longrightarrow> (\<forall>y\<in>set (x # xs). \<not> flat M < flat (cand M y))"
      using r(6) False by simp
    ultimately show ?thesis using r(2-8) by blast
  qed
qed

lemma row_step_int:
  fixes M :: "'a::linorder ndarray"
  assumes "i < fst (shape M)" "j < fst (shape M)"
  shows "row_step (M, mf) (int i, int j) =
     Inr (if flat M < flat (gather (row_perm (snd (shape M)) i j) M)
          then (gather (row_perm (snd (shape M)) i j) M, False) else (M, mf))"
  using assms by (simp add: row_step_def swap_rows_int greater_equal_length gather_length)

lemma col_step_int:
  fixes M :: "'a::linorder ndarray"
  assumes "i < snd (shape M)" "j < snd (shape M)"
  shows "col_step (M, mf) (int i, int j) =
     Inr (if flat M < flat (gather (col_perm (snd (shape M)) i j) M)
          then (gather (col_perm (snd (shape M)) i j) M, False) else (M, mf))"
  using assms by (simp add: col_step_def swap_cols_int greater_equal_length gather_length)

lemma range_pairs_valid:
  assumes "p \<in> set (combinations2 (range_py n))"
  shows "p \<in> {(int i, int j) | i j. i < n \<and> j < n}"
proof -
  from combinations2_mem [OF assms] have "fst p \<in> set (range_py n)" "snd p \<in> set (range_py n)"
    by simp_all
  then obtain i j where "i < n" "fst p = int i" "j < n" "snd p = int j"
    by (meson range_mem)
  then have "p = (int i, int j)" by (simp add: prod_eq_iff)
  with \<open>i < n\<close> \<open>j < n\<close> show ?thesis by blast
qed

lemma row_loop_spec:
  fixes M :: "'a::linorder ndarray"
  assumes M: "wf_array M" "shape M = (R, C)"
  shows "\<exists>M' mf'. for_loop row_step (M, mf) (combinations2 (range_py R)) = Inr (M', mf')
           \<and> wf_array M' \<and> shape M' = (R, C)
           \<and> mset (flat M') = mset (flat M) \<and> rearrangement_of M M' \<and> flat M \<le> flat M'
           \<and> (mf' \<longrightarrow> mf \<and> M' = M \<and> (\<forall>x\<in>set (combinations2 (range_py R)). \<not> flat M < flat (row_cand M x)))
           \<and> (\<not> mf' \<longrightarrow> \<not> mf \<or> flat M < flat M')"
proof (rule climb_loop [where X = "{(int i, int j) | i j. i < R \<and> j < R}" and cand = row_cand, OF _ _ M])
  fix N :: "'a ndarray" and mf x
  assume N: "wf_array N" "shape N = (R, C)" and "x \<in> {(int i, int j) | i j. i < R \<and> j < R}"
  then obtain i j where x: "x = (int i, int j)" "i < R" "j < R" by blast
  show "row_step (N, mf) x = Inr (if flat N < flat (row_cand N x) then (row_cand N x, False) else (N, mf))"
    using row_step_int [of i N j mf] x N by (simp add: row_cand_def)
  show "wf_array (row_cand N x) \<and> shape (row_cand N x) = (R, C) \<and> mset (flat (row_cand N x)) = mset (flat N)
      \<and> rearrangement_of N (row_cand N x)"
    using gather_row_perm_mset [of N i j] gather_row_rearrangement [of N i j] x N
    by (simp add: row_cand_def gather_wf gather_shape)
next
  show "set (combinations2 (range_py R)) \<subseteq> {(int i, int j) | i j. i < R \<and> j < R}"
    using range_pairs_valid by blast
qed

lemma col_loop_spec:
  fixes M :: "'a::linorder ndarray"
  assumes M: "wf_array M" "shape M = (R, C)"
  shows "\<exists>M' mf'. for_loop col_step (M, mf) (combinations2 (range_py C)) = Inr (M', mf')
           \<and> wf_array M' \<and> shape M' = (R, C)
           \<and> mset (flat M') = mset (flat M) \<and> rearrangement_of M M' \<and> flat M \<le> flat M'
           \<and> (mf' \<longrightarrow> mf \<and> M' = M \<and> (\<forall>x\<in>set (combinations2 (range_py C)). \<not> flat M < flat (col_cand M x)))
           \<and> (\<not> mf' \<longrightarrow> \<not> mf \<or> flat M < flat M')"
proof (rule climb_loop [where X = "{(int i, int j) | i j. i < C \<and> j < C}" and cand = col_cand, OF _ _ M])
  fix N :: "'a ndarray" and mf x
  assume N: "wf_array N" "shape N = (R, C)" and "x \<in> {(int i, int j) | i j. i < C \<and> j < C}"
  then obtain i j where x: "x = (int i, int j)" "i < C" "j < C" by blast
  show "col_step (N, mf) x = Inr (if flat N < flat (col_cand N x) then (col_cand N x, False) else (N, mf))"
    using col_step_int [of i N j mf] x N by (simp add: col_cand_def)
  show "wf_array (col_cand N x) \<and> shape (col_cand N x) = (R, C) \<and> mset (flat (col_cand N x)) = mset (flat N)
      \<and> rearrangement_of N (col_cand N x)"
    using gather_col_perm_mset [of N i j] gather_col_rearrangement [of N i j] x N
    by (simp add: col_cand_def gather_wf gather_shape)
next
  show "set (combinations2 (range_py C)) \<subseteq> {(int i, int j) | i j. i < C \<and> j < C}"
    using range_pairs_valid by blast
qed

lemma all_pairs_from_ascending:
  fixes i j n :: nat and M :: "'a::linorder ndarray"
  assumes asc: "\<And>i j. i < j \<Longrightarrow> j < n \<Longrightarrow> \<not> flat M < flat (gather (f i j) M)"
    and comm: "\<And>i j. f i j = f j i" and same: "\<And>i. gather (f i i) M = M"
    and ij: "i < n" "j < n"
  shows "\<not> flat M < flat (gather (f i j) M)"
proof -
  consider "i < j" | "j < i" | "i = j" by linarith
  then show ?thesis
  proof cases
    case 1
    then show ?thesis using asc ij by blast
  next
    case 2
    then have "\<not> flat M < flat (gather (f j i) M)" using asc ij by blast
    then show ?thesis by (metis comm)
  next
    case 3
    then show ?thesis using same [of i] by simp
  qed
qed

lemma one_pass_spec:
  fixes M :: "'a::linorder ndarray"
  assumes M: "wf_array M" "shape M = (R, C)"
  shows "\<exists>M' mf'. one_pass R C M = Inr (M', mf')
           \<and> wf_array M' \<and> shape M' = (R, C)
           \<and> mset (flat M') = mset (flat M) \<and> rearrangement_of M M' \<and> flat M \<le> flat M'
           \<and> (mf' \<longrightarrow> M' = M \<and> locally_maximal M)
           \<and> (\<not> mf' \<longrightarrow> flat M < flat M')"
proof -
  from row_loop_spec [OF M, of True] obtain M1 mf1 where
    r: "for_loop row_step (M, True) (combinations2 (range_py R)) = Inr (M1, mf1)"
      "wf_array M1" "shape M1 = (R, C)" "mset (flat M1) = mset (flat M)" "flat M \<le> flat M1"
      "mf1 \<longrightarrow> M1 = M \<and> (\<forall>x\<in>set (combinations2 (range_py R)). \<not> flat M < flat (row_cand M x))"
      "\<not> mf1 \<longrightarrow> flat M < flat M1" "rearrangement_of M M1"
    by blast
  from col_loop_spec [OF r(2,3), of mf1] obtain M2 mf2 where
    c: "for_loop col_step (M1, mf1) (combinations2 (range_py C)) = Inr (M2, mf2)"
      "wf_array M2" "shape M2 = (R, C)" "mset (flat M2) = mset (flat M1)" "flat M1 \<le> flat M2"
      "mf2 \<longrightarrow> mf1 \<and> M2 = M1 \<and> (\<forall>x\<in>set (combinations2 (range_py C)). \<not> flat M1 < flat (col_cand M1 x))"
      "\<not> mf2 \<longrightarrow> \<not> mf1 \<or> flat M1 < flat M2" "rearrangement_of M1 M2"
    by blast
  have run: "one_pass R C M = Inr (M2, mf2)"
    using r(1) c(1) by (simp add: one_pass_def)
  have ms: "mset (flat M2) = mset (flat M)" using r(4) c(4) by simp
  have re: "rearrangement_of M M2" using r(8) c(8) by (rule rearrangement_trans)
  have le: "flat M \<le> flat M2" using r(5) c(5) by (rule order_trans)
  have lt: "flat M < flat M2" if "\<not> mf2"
  proof (cases mf1)
    case True
    with that c(7) have "flat M1 < flat M2" by simp
    with r(5) show ?thesis by (rule le_less_trans)
  next
    case False
    with r(7) have "flat M < flat M1" by simp
    then show ?thesis using c(5) by (rule less_le_trans)
  qed
  have fixed: "M2 = M \<and> locally_maximal M" if mf2
  proof -
    from that c(6) have mf1: mf1 and M21: "M2 = M1"
      and cols: "\<forall>x\<in>set (combinations2 (range_py C)). \<not> flat M1 < flat (col_cand M1 x)"
      by simp_all
    from mf1 r(6) have M1: "M1 = M"
      and rows: "\<forall>x\<in>set (combinations2 (range_py R)). \<not> flat M < flat (row_cand M x)"
      by simp_all
    have rows': "\<not> flat M < flat (gather (row_perm C i j) M)" if "i < j" "j < R" for i j
      using rows range_pairs [OF that] M(2) by (auto simp: row_cand_def)
    have cols': "\<not> flat M < flat (gather (col_perm C i j) M)" if "i < j" "j < C" for i j
      using cols range_pairs [OF that] M(2) M1 by (auto simp: col_cand_def)
    have "\<not> flat M < flat (gather (row_perm C i j) M)" if "i < R" "j < R" for i j
      using rows' _ _ that
      by (rule all_pairs_from_ascending) (simp_all add: row_perm_commute [of C] gather_row_perm_same)
    moreover have "\<not> flat M < flat (gather (col_perm C i j) M)" if "i < C" "j < C" for i j
      using cols' _ _ that
      by (rule all_pairs_from_ascending) (simp_all add: col_perm_commute [of C] gather_col_perm_same)
    ultimately have "locally_maximal M" using M(2) by (simp add: locally_maximal_def)
    with M21 M1 show ?thesis by simp
  qed
  show ?thesis using run c(2,3) ms re le lt fixed by blast
qed

section \<open>Termination and result of the \<open>while\<close> loop\<close>

lemma climb_measure:
  fixes xs ys :: "'a::linorder list"
  assumes "mset ys = mset xs" "xs < ys"
  shows "card {zs. mset zs = mset ys \<and> ys < zs} < card {zs. mset zs = mset xs \<and> xs < zs}"
proof (rule psubset_card_mono)
  have "{zs. mset zs = mset xs \<and> xs < zs} \<subseteq> {zs. mset zs = mset xs}" by blast
  then show "finite {zs. mset zs = mset xs \<and> xs < zs}"
    using mset_eq_finite [of xs] by (rule finite_subset)
next
  have "ys \<in> {zs. mset zs = mset xs \<and> xs < zs}" using assms by simp
  moreover have "ys \<notin> {zs. mset zs = mset ys \<and> ys < zs}" by simp
  moreover have "{zs. mset zs = mset ys \<and> ys < zs} \<subseteq> {zs. mset zs = mset xs \<and> xs < zs}"
    using assms by auto
  ultimately show "{zs. mset zs = mset ys \<and> ys < zs} \<subset> {zs. mset zs = mset xs \<and> xs < zs}"
    by blast
qed

lemma while_spec:
  fixes M :: "'a::linorder ndarray"
  assumes "wf_array M" "shape M = (R, C)"
  shows "\<exists>M'. while_not_max_found R C M = Some (Inr M')
           \<and> wf_array M' \<and> shape M' = (R, C)
           \<and> mset (flat M') = mset (flat M) \<and> rearrangement_of M M' \<and> flat M \<le> flat M'
           \<and> locally_maximal M' \<and> one_pass R C M' = Inr (M', True)"
  using assms
proof (induction "card {zs. mset zs = mset (flat M) \<and> flat M < zs}" arbitrary: M rule: less_induct)
  case less
  from one_pass_spec [OF less.prems] obtain M1 mf1 where
    p: "one_pass R C M = Inr (M1, mf1)" "wf_array M1" "shape M1 = (R, C)"
      "mset (flat M1) = mset (flat M)" "flat M \<le> flat M1"
      "mf1 \<longrightarrow> M1 = M \<and> locally_maximal M" "\<not> mf1 \<longrightarrow> flat M < flat M1"
      "rearrangement_of M M1"
    by blast
  show ?case
  proof (cases mf1)
    case True
    with p(6) have M1: "M1 = M" and lm: "locally_maximal M" by simp_all
    have "while_not_max_found R C M = Some (Inr M)"
      using p(1) True M1 by (subst while_not_max_found.simps) simp
    moreover have "one_pass R C M = Inr (M, True)" using p(1) True M1 by simp
    ultimately show ?thesis using less.prems lm rearrangement_refl [of M] by auto
  next
    case False
    with p(7) have lt: "flat M < flat M1" by simp
    have "card {zs. mset zs = mset (flat M1) \<and> flat M1 < zs}
            < card {zs. mset zs = mset (flat M) \<and> flat M < zs}"
      using p(4) lt by (rule climb_measure)
    from less.hyps [OF this p(2,3)] obtain M' where
      r: "while_not_max_found R C M1 = Some (Inr M')" "wf_array M'" "shape M' = (R, C)"
        "mset (flat M') = mset (flat M1)" "flat M1 \<le> flat M'"
        "locally_maximal M'" "one_pass R C M' = Inr (M', True)" "rearrangement_of M1 M'"
      by blast
    have "while_not_max_found R C M = Some (Inr M')"
      using p(1) False r(1) by (subst while_not_max_found.simps) simp
    moreover have "mset (flat M') = mset (flat M)" using r(4) p(4) by simp
    moreover have "flat M \<le> flat M'" using p(5) r(5) by (rule order_trans)
    moreover have "rearrangement_of M M'" using p(8) r(8) by (rule rearrangement_trans)
    ultimately show ?thesis using r(2,3,6,7) by blast
  qed
qed

lemma maximise_matrix_spec:
  fixes M :: "'a::linorder ndarray"
  assumes "wf_array M"
  shows "\<exists>M'. maximise_matrix M = Some (Inr M')
           \<and> wf_array M' \<and> shape M' = shape M
           \<and> mset (flat M') = mset (flat M) \<and> rearrangement_of M M' \<and> flat M \<le> flat M'
           \<and> locally_maximal M'
           \<and> one_pass (fst (shape M)) (snd (shape M)) M' = Inr (M', True)"
  using while_spec [OF assms, of "fst (shape M)" "snd (shape M)"]
  by (simp add: maximise_matrix_def)

lemma fixed_point_returns:
  "one_pass (fst (shape M)) (snd (shape M)) M = Inr (M, True) \<Longrightarrow> maximise_matrix M = Some (Inr M)"
  unfolding maximise_matrix_def by (subst while_not_max_found.simps) simp

lemma locally_maximal_rows:
  fixes M :: "'a::linorder ndarray"
  assumes "locally_maximal M" "swap_rows M i j = Inr S"
  shows "greater S M = Inr False \<and> \<not> flat M < flat S"
proof -
  from assms(2) obtain i' j' where ij: "i' < fst (shape M)" "j' < fst (shape M)"
    and S: "S = gather (row_perm (snd (shape M)) i' j') M"
    by (rule swap_rows_valid)
  have "greater S M = Inr (flat M < flat S)"
    using S by (intro greater_equal_length) (simp add: gather_length)
  moreover have "\<not> flat M < flat S"
    using assms(1) ij S by (simp add: locally_maximal_def)
  ultimately show ?thesis by simp
qed

lemma locally_maximal_cols:
  fixes M :: "'a::linorder ndarray"
  assumes "locally_maximal M" "swap_cols M i j = Inr S"
  shows "greater S M = Inr False \<and> \<not> flat M < flat S"
proof -
  from assms(2) obtain i' j' where ij: "i' < snd (shape M)" "j' < snd (shape M)"
    and S: "S = gather (col_perm (snd (shape M)) i' j') M"
    by (rule swap_cols_valid)
  have "greater S M = Inr (flat M < flat S)"
    using S by (intro greater_equal_length) (simp add: gather_length)
  moreover have "\<not> flat M < flat S"
    using assms(1) ij S by (simp add: locally_maximal_def)
  ultimately show ?thesis by simp
qed

section \<open>The claims\<close>

lemma example_input_wf: "wf_array example_input"
  by (simp add: wf_array_def example_input_def)

text \<open>
  Claim C1. For every array \<open>M\<close> (in particular every matrix with at least one row and
  one column), \<^verbatim>\<open>maximise_matrix(M)\<close> returns an array \<open>M'\<close> that is a local maximum:
  whenever \<^verbatim>\<open>swap_rows(M', i, j)\<close> or \<^verbatim>\<open>swap_cols(M', i, j)\<close> returns an array \<open>S\<close>,
  \<^verbatim>\<open>greater(S, M')\<close> is \<^verbatim>\<open>False\<close> and the flattened \<open>S\<close> is not lexicographically
  after the flattened \<open>M'\<close>; and running \<^verbatim>\<open>maximise_matrix\<close> on \<open>M'\<close> returns
  \<open>M'\<close> again.
\<close>

theorem maximise_matrix_local_maximum:
  fixes M :: "'a::linorder ndarray"
  assumes "wf_array M"
  shows "\<exists>M'. maximise_matrix M = Some (Inr M')
           \<and> (\<forall>i j S. swap_rows M' i j = Inr S
                  \<longrightarrow> greater S M' = Inr False \<and> \<not> flat M' < flat S)
           \<and> (\<forall>i j S. swap_cols M' i j = Inr S
                  \<longrightarrow> greater S M' = Inr False \<and> \<not> flat M' < flat S)
           \<and> maximise_matrix M' = Some (Inr M')"
proof -
  from maximise_matrix_spec [OF assms] obtain M' where
    r: "maximise_matrix M = Some (Inr M')" "shape M' = shape M" "locally_maximal M'"
      "one_pass (fst (shape M)) (snd (shape M)) M' = Inr (M', True)"
    by blast
  have "maximise_matrix M' = Some (Inr M')"
    using r(2,4) by (intro fixed_point_returns) simp
  then show ?thesis
    using r(1,3) locally_maximal_rows locally_maximal_cols by blast
qed

theorem maximise_matrix_local_maximum_witness:
  "wf_array example_input
   \<and> maximise_matrix example_input = Some (Inr reached_image)
   \<and> swap_rows reached_image 0 1 = Inr \<lparr>shape = (3, 3), flat = [0, 3, 1,  2, 1, 1,  0, 0, 0]\<rparr>
   \<and> greater \<lparr>shape = (3, 3), flat = [0, 3, 1,  2, 1, 1,  0, 0, 0]\<rparr> reached_image = Inr False
   \<and> swap_cols reached_image 1 2 = Inr \<lparr>shape = (3, 3), flat = [2, 1, 1,  0, 1, 3,  0, 0, 0]\<rparr>
   \<and> greater \<lparr>shape = (3, 3), flat = [2, 1, 1,  0, 1, 3,  0, 0, 0]\<rparr> reached_image = Inr False
   \<and> maximise_matrix reached_image = Some (Inr reached_image)"
proof -
  have run: "maximise_matrix example_input = Some (Inr reached_image)" by code_simp
  have r: "swap_rows reached_image 0 1 = Inr \<lparr>shape = (3, 3), flat = [0, 3, 1,  2, 1, 1,  0, 0, 0]\<rparr>"
    by code_simp
  have c: "swap_cols reached_image 1 2 = Inr \<lparr>shape = (3, 3), flat = [2, 1, 1,  0, 1, 3,  0, 0, 0]\<rparr>"
    by code_simp
  from maximise_matrix_local_maximum [OF example_input_wf] run r c
  show ?thesis using example_input_wf by auto
qed




text \<open>
  Claim C4. For every array \<open>M\<close>, \<^verbatim>\<open>maximise_matrix(M)\<close> returns a row and column
  rearrangement of \<open>M\<close>: an array with the same number of rows and of columns as \<open>M\<close>
  and with the same multiset of entries (no entry is created, dropped or altered), whose
  entries are those of \<open>M\<close> under a permutation of the rows and a permutation of the
  columns.
\<close>

theorem maximise_matrix_rearranges:
  fixes M :: "'a::linorder ndarray"
  assumes "wf_array M"
  shows "\<exists>M'. maximise_matrix M = Some (Inr M') \<and> wf_array M' \<and> shape M' = shape M
           \<and> mset (flat M') = mset (flat M) \<and> rearrangement_of M M'"
  using maximise_matrix_spec [OF assms] by blast

theorem maximise_matrix_rearranges_witness:
  "wf_array example_input \<and> maximise_matrix example_input = Some (Inr reached_image)
   \<and> wf_array reached_image \<and> shape reached_image = shape example_input
   \<and> mset (flat reached_image) = mset (flat example_input)
   \<and> rearrangement_of example_input reached_image"
proof -
  have "maximise_matrix example_input = Some (Inr reached_image)" by code_simp
  with maximise_matrix_rearranges [OF example_input_wf] example_input_wf
  show ?thesis by auto
qed

lemma accepted_row_swap_increases:
  fixes N :: "'a::linorder ndarray"
  assumes "swap_rows N i j = Inr S" "greater S N = Inr True"
  shows "flat N < flat S"
proof -
  from assms(1) obtain i' j' where "S = gather (row_perm (snd (shape N)) i' j') N"
    by (rule swap_rows_valid)
  then have "greater S N = Inr (flat N < flat S)"
    by (intro greater_equal_length) (simp add: gather_length)
  with assms(2) show ?thesis by simp
qed

lemma accepted_col_swap_increases:
  fixes N :: "'a::linorder ndarray"
  assumes "swap_cols N i j = Inr S" "greater S N = Inr True"
  shows "flat N < flat S"
proof -
  from assms(1) obtain i' j' where "S = gather (col_perm (snd (shape N)) i' j') N"
    by (rule swap_cols_valid)
  then have "greater S N = Inr (flat N < flat S)"
    by (intro greater_equal_length) (simp add: gather_length)
  with assms(2) show ?thesis by simp
qed

lemma finite_rearrangements:
  "finite {N :: 'a ndarray. shape N = sh \<and> mset (flat N) = mset xs}"
proof -
  have "{N :: 'a ndarray. shape N = sh \<and> mset (flat N) = mset xs}
          \<subseteq> (\<lambda>ys. \<lparr>shape = sh, flat = ys\<rparr>) ` {ys. mset ys = mset xs}"
  proof
    fix N :: "'a ndarray"
    assume "N \<in> {N. shape N = sh \<and> mset (flat N) = mset xs}"
    then have "N = \<lparr>shape = sh, flat = flat N\<rparr>" "flat N \<in> {ys. mset ys = mset xs}"
      by simp_all
    then show "N \<in> (\<lambda>ys. \<lparr>shape = sh, flat = ys\<rparr>) ` {ys. mset ys = mset xs}"
      by (rule image_eqI)
  qed
  moreover have "finite ((\<lambda>ys. \<lparr>shape = sh, flat = ys\<rparr> :: 'a ndarray) ` {ys. mset ys = mset xs})"
    using mset_eq_finite by (rule finite_imageI)
  ultimately show ?thesis by (rule finite_subset)
qed

lemma pass_without_swap_exits:
  "one_pass rows cols N = Inr (N', True) \<Longrightarrow> while_not_max_found rows cols N = Some (Inr N')"
  by (subst while_not_max_found.simps) simp

text \<open>
  Claim C5. \<^verbatim>\<open>maximise_matrix\<close> returns for every array \<open>M\<close>. The ingredients: in any
  state \<open>N\<close> an accepted row or column swap has a strictly greater row-major reading than
  \<open>N\<close>; only finitely many arrays have the shape and the multiset of entries of \<open>M\<close>;
  and the \<^verbatim>\<open>while\<close> loop returns as soon as a pass over all row pairs and all column
  pairs ends with \<^verbatim>\<open>max_found\<close> still \<^verbatim>\<open>True\<close>.
\<close>

theorem maximise_matrix_terminates:
  fixes M N :: "'a::linorder ndarray"
  assumes "wf_array M"
  shows "(\<exists>M'. maximise_matrix M = Some (Inr M'))
       \<and> (\<forall>i j S. swap_rows N i j = Inr S \<and> greater S N = Inr True \<longrightarrow> flat N < flat S)
       \<and> (\<forall>i j S. swap_cols N i j = Inr S \<and> greater S N = Inr True \<longrightarrow> flat N < flat S)
       \<and> finite {K :: 'a ndarray. shape K = shape M \<and> mset (flat K) = mset (flat M)}
       \<and> (\<forall>rows cols N'. one_pass rows cols N = Inr (N', True)
             \<longrightarrow> while_not_max_found rows cols N = Some (Inr N'))"
proof -
  have "\<exists>M'. maximise_matrix M = Some (Inr M')"
    using maximise_matrix_spec [OF assms] by blast
  then show ?thesis
    using accepted_row_swap_increases [of N] accepted_col_swap_increases [of N]
      finite_rearrangements [of "shape M" "flat M"] pass_without_swap_exits [of _ _ N]
    by blast
qed

theorem maximise_matrix_terminates_witness:
  "wf_array example_input
   \<and> maximise_matrix example_input = Some (Inr reached_image)
   \<and> swap_rows example_input 0 1 = Inr \<lparr>shape = (3, 3), flat = [0, 1, 3,  0, 0, 0,  2, 1, 1]\<rparr>
   \<and> greater \<lparr>shape = (3, 3), flat = [0, 1, 3,  0, 0, 0,  2, 1, 1]\<rparr> example_input = Inr True
   \<and> flat example_input < [0, 1, 3,  0, 0, 0,  2, 1, 1]
   \<and> one_pass 3 3 reached_image = Inr (reached_image, True)
   \<and> while_not_max_found 3 3 reached_image = Some (Inr reached_image)"
proof -
  let ?S = "\<lparr>shape = (3, 3), flat = [0, 1, 3,  0, 0, 0,  2, 1, 1 :: int]\<rparr>"
  have run: "maximise_matrix example_input = Some (Inr reached_image)" by code_simp
  have sw: "swap_rows example_input 0 1 = Inr ?S" by code_simp
  have gr: "greater ?S example_input = Inr True" by code_simp
  have pass: "one_pass 3 3 reached_image = Inr (reached_image, True)" by code_simp
  note t = maximise_matrix_terminates [OF example_input_wf, of example_input]
  from t sw gr have "flat example_input < flat ?S" by blast
  moreover from t pass have "while_not_max_found 3 3 reached_image = Some (Inr reached_image)"
    using maximise_matrix_terminates [OF example_input_wf, of reached_image] by blast
  ultimately show ?thesis using example_input_wf run sw gr pass by simp
qed

text \<open>
  Claim C2 in its original wording fails: the run on the matrix of the notebook's
  introduction does not end in \<open>[[3,1,0],[1,1,2],[0,0,0]]\<close>, the matrix that the
  introduction shows for the ideal map \<open>F\<close>.
\<close>

theorem example_misses_documented_image:
  "maximise_matrix example_input \<noteq> Some (Inr documented_image)"
proof -
  have "maximise_matrix example_input = Some (Inr reached_image)" by code_simp
  then show ?thesis by (simp add: reached_image_def documented_image_def)
qed

text \<open>
  Claim C2, as the code has it. On the input \<open>[[0,0,0],[0,1,3],[2,1,1]]\<close>,
  \<^verbatim>\<open>maximise_matrix\<close> returns \<open>[[2,1,1],[0,3,1],[0,0,0]]\<close>. The first row pair
  \<open>(0, 1)\<close> is accepted at once, the row loop of the first pass ends in
  \<open>[[2,1,1],[0,1,3],[0,0,0]]\<close>, and in that state the column pair \<open>(1, 2)\<close> is accepted,
  which gives the returned matrix: at least one row swap and one column swap are accepted.
\<close>

theorem example_reaches_local_maximum:
  "maximise_matrix example_input = Some (Inr reached_image)
   \<and> swap_rows example_input 0 1 = Inr \<lparr>shape = (3, 3), flat = [0, 1, 3,  0, 0, 0,  2, 1, 1]\<rparr>
   \<and> greater \<lparr>shape = (3, 3), flat = [0, 1, 3,  0, 0, 0,  2, 1, 1]\<rparr> example_input = Inr True
   \<and> for_loop row_step (example_input, True) (combinations2 (range_py 3))
        = Inr (\<lparr>shape = (3, 3), flat = [2, 1, 1,  0, 1, 3,  0, 0, 0]\<rparr>, False)
   \<and> swap_cols \<lparr>shape = (3, 3), flat = [2, 1, 1,  0, 1, 3,  0, 0, 0]\<rparr> 1 2 = Inr reached_image
   \<and> greater reached_image \<lparr>shape = (3, 3), flat = [2, 1, 1,  0, 1, 3,  0, 0, 0]\<rparr> = Inr True
   \<and> for_loop col_step (\<lparr>shape = (3, 3), flat = [2, 1, 1,  0, 1, 3,  0, 0, 0]\<rparr>, False)
        (combinations2 (range_py 3)) = Inr (reached_image, False)"
  by code_simp

text \<open>
  Claim C6. \<^verbatim>\<open>maximise_matrix\<close> is not a canonical form. The matrix
  \<open>[[3,1,0],[1,1,2],[0,0,0]]\<close> is obtained from \<open>[[0,0,0],[0,1,3],[2,1,1]]\<close> by one column
  swap and two row swaps, yet the two matrices are sent to different results; the result for
  the second one is lexicographically smaller than the first matrix, a rearrangement of it,
  so it is not the global maximum.
\<close>

theorem maximise_matrix_not_canonical:
  "swap_cols example_input 0 2 = Inr \<lparr>shape = (3, 3), flat = [0, 0, 0,  3, 1, 0,  1, 1, 2]\<rparr>
   \<and> swap_rows \<lparr>shape = (3, 3), flat = [0, 0, 0,  3, 1, 0,  1, 1, 2 :: int]\<rparr> 0 1
        = Inr \<lparr>shape = (3, 3), flat = [3, 1, 0,  0, 0, 0,  1, 1, 2]\<rparr>
   \<and> swap_rows \<lparr>shape = (3, 3), flat = [3, 1, 0,  0, 0, 0,  1, 1, 2]\<rparr> 1 2 = Inr documented_image
   \<and> maximise_matrix example_input = Some (Inr reached_image)
   \<and> maximise_matrix documented_image = Some (Inr documented_image)
   \<and> reached_image \<noteq> documented_image
   \<and> flat reached_image < flat documented_image"
  by code_simp

text \<open>
  Claim C7 in its original wording fails on an array with no rows and three columns:
  \<^verbatim>\<open>maximise_matrix\<close> returns it, no error is raised.
\<close>

theorem zero_rows_returned:
  "fst (shape \<lparr>shape = (0, 3), flat = [] :: int list\<rparr>) = 0
   \<and> maximise_matrix \<lparr>shape = (0, 3), flat = [] :: int list\<rparr>
       = Some (Inr \<lparr>shape = (0, 3), flat = []\<rparr>)"
  by code_simp

text \<open>
  Claim C7, as the code has it. \<^verbatim>\<open>maximise_matrix\<close> validates nothing: an array with
  zero rows or zero columns is returned unchanged. (Data that is not rectangular is not an
  array with two axes and has no counterpart in the model.)
\<close>

theorem maximise_matrix_degenerate:
  fixes M :: "'a::linorder ndarray"
  assumes "wf_array M" "fst (shape M) = 0 \<or> snd (shape M) = 0"
  shows "maximise_matrix M = Some (Inr M)"
proof -
  have empty: "flat M = []" using assms by (auto simp: wf_array_def)
  from maximise_matrix_spec [OF assms(1)] obtain M' where
    r: "maximise_matrix M = Some (Inr M')" "shape M' = shape M" "mset (flat M') = mset (flat M)"
    by blast
  from r(3) empty have "flat M' = []" by simp
  with r(2) empty have "M' = M" by simp
  with r(1) show ?thesis by simp
qed

theorem maximise_matrix_degenerate_witness:
  "wf_array \<lparr>shape = (2, 0), flat = [] :: int list\<rparr>
   \<and> snd (shape \<lparr>shape = (2, 0), flat = [] :: int list\<rparr>) = 0
   \<and> maximise_matrix \<lparr>shape = (2, 0), flat = [] :: int list\<rparr>
       = Some (Inr \<lparr>shape = (2, 0), flat = []\<rparr>)"
proof -
  let ?Z = "\<lparr>shape = (2, 0), flat = [] :: int list\<rparr>"
  have w: "wf_array ?Z" by (simp add: wf_array_def)
  have "maximise_matrix ?Z = Some (Inr ?Z)"
    using w by (rule maximise_matrix_degenerate) simp
  with w show ?thesis by simp
qed




section \<open>The comparator on arrays with dtypes\<close>













section \<open>The caller's array\<close>

lemma swap_rows_h_result:
  "swap_rows_h h m i j =
     (case swap_rows (h ! m) i j of Inl e \<Rightarrow> Inl e | Inr S \<Rightarrow> Inr (length h, h @ [S]))"
  by (simp add: swap_rows_h_def copy_h_def split: sum.splits)

lemma swap_cols_h_result:
  "swap_cols_h h m i j =
     (case swap_cols (h ! m) i j of Inl e \<Rightarrow> Inl e | Inr S \<Rightarrow> Inr (length h, h @ [S]))"
  by (simp add: swap_cols_h_def copy_h_def split: sum.splits)

lemma row_step_h_refines:
  fixes h :: "'a::linorder heap"
  assumes m: "m < length h" and pure: "row_step (h ! m, mf) p = Inr (M', mf')"
  shows "\<exists>zs m'. row_step_h (h, m, mf) p = Inr (h @ zs, m', mf') \<and> m' < length (h @ zs)
           \<and> (h @ zs) ! m' = M' \<and> ((m' = m \<and> mf' = mf) \<or> (length h \<le> m' \<and> \<not> mf'))"
proof -
  from pure obtain S g where S: "swap_rows (h ! m) (fst p) (snd p) = Inr S"
    and g: "greater S (h ! m) = Inr g"
    by (auto simp: row_step_def split: sum.splits)
  have hm: "(h @ [S]) ! m = h ! m" using m by (simp add: nth_append)
  show ?thesis
  proof (cases g)
    case True
    with pure S g have res: "M' = S" "mf' = False" by (simp_all add: row_step_def)
    have "row_step_h (h, m, mf) p = Inr (h @ [S, S], Suc (length h), False)"
      using S g True hm by (simp add: row_step_h_def swap_rows_h_result)
    moreover have "(h @ [S, S]) ! Suc (length h) = S" by (simp add: nth_append)
    ultimately show ?thesis using res
      by (intro exI [of _ "[S, S]"] exI [of _ "Suc (length h)"]) simp
  next
    case False
    with pure S g have res: "M' = h ! m" "mf' = mf" by (simp_all add: row_step_def)
    have "row_step_h (h, m, mf) p = Inr (h @ [S], m, mf)"
      using S g False hm by (simp add: row_step_h_def swap_rows_h_result)
    then show ?thesis using res m hm
      by (intro exI [of _ "[S]"] exI [of _ m]) simp
  qed
qed

lemma col_step_h_refines:
  fixes h :: "'a::linorder heap"
  assumes m: "m < length h" and pure: "col_step (h ! m, mf) p = Inr (M', mf')"
  shows "\<exists>zs m'. col_step_h (h, m, mf) p = Inr (h @ zs, m', mf') \<and> m' < length (h @ zs)
           \<and> (h @ zs) ! m' = M' \<and> ((m' = m \<and> mf' = mf) \<or> (length h \<le> m' \<and> \<not> mf'))"
proof -
  from pure obtain S g where S: "swap_cols (h ! m) (fst p) (snd p) = Inr S"
    and g: "greater S (h ! m) = Inr g"
    by (auto simp: col_step_def split: sum.splits)
  have hm: "(h @ [S]) ! m = h ! m" using m by (simp add: nth_append)
  show ?thesis
  proof (cases g)
    case True
    with pure S g have res: "M' = S" "mf' = False" by (simp_all add: col_step_def)
    have "col_step_h (h, m, mf) p = Inr (h @ [S, S], Suc (length h), False)"
      using S g True hm by (simp add: col_step_h_def swap_cols_h_result)
    moreover have "(h @ [S, S]) ! Suc (length h) = S" by (simp add: nth_append)
    ultimately show ?thesis using res
      by (intro exI [of _ "[S, S]"] exI [of _ "Suc (length h)"]) simp
  next
    case False
    with pure S g have res: "M' = h ! m" "mf' = mf" by (simp_all add: col_step_def)
    have "col_step_h (h, m, mf) p = Inr (h @ [S], m, mf)"
      using S g False hm by (simp add: col_step_h_def swap_cols_h_result)
    then show ?thesis using res m hm
      by (intro exI [of _ "[S]"] exI [of _ m]) simp
  qed
qed

lemma for_loop_h_refines:
  fixes step :: "'a ndarray \<times> bool \<Rightarrow> 'x \<Rightarrow> error + 'a ndarray \<times> bool"
    and step_h :: "'a heap \<times> nat \<times> bool \<Rightarrow> 'x \<Rightarrow> error + 'a heap \<times> nat \<times> bool"
  assumes step: "\<And>h m mf x M' mf'. m < length h \<Longrightarrow> step (h ! m, mf) x = Inr (M', mf') \<Longrightarrow>
      \<exists>zs m'. step_h (h, m, mf) x = Inr (h @ zs, m', mf') \<and> m' < length (h @ zs)
        \<and> (h @ zs) ! m' = M' \<and> ((m' = m \<and> mf' = mf) \<or> (length h \<le> m' \<and> \<not> mf'))"
  shows "m < length h \<Longrightarrow> for_loop step (h ! m, mf) xs = Inr (M', mf') \<Longrightarrow>
      \<exists>zs m'. for_loop step_h (h, m, mf) xs = Inr (h @ zs, m', mf') \<and> m' < length (h @ zs)
        \<and> (h @ zs) ! m' = M' \<and> ((m' = m \<and> mf' = mf) \<or> (length h \<le> m' \<and> \<not> mf'))"
proof (induction xs arbitrary: h m mf)
  case Nil
  then show ?case by (intro exI [of _ "[]"] exI [of _ m]) simp
next
  case (Cons x xs)
  from Cons.prems(2) obtain M1 mf1 where
    s1: "step (h ! m, mf) x = Inr (M1, mf1)" and rest: "for_loop step (M1, mf1) xs = Inr (M', mf')"
    by (auto split: sum.splits)
  from step [OF Cons.prems(1) s1] obtain zs1 m1 where
    h1: "step_h (h, m, mf) x = Inr (h @ zs1, m1, mf1)" "m1 < length (h @ zs1)"
      "(h @ zs1) ! m1 = M1" "(m1 = m \<and> mf1 = mf) \<or> (length h \<le> m1 \<and> \<not> mf1)"
    by blast
  from rest h1(3) have "for_loop step ((h @ zs1) ! m1, mf1) xs = Inr (M', mf')" by simp
  from Cons.IH [OF h1(2) this] obtain zs2 m2 where
    h2: "for_loop step_h (h @ zs1, m1, mf1) xs = Inr ((h @ zs1) @ zs2, m2, mf')"
      "m2 < length ((h @ zs1) @ zs2)" "((h @ zs1) @ zs2) ! m2 = M'"
      "(m2 = m1 \<and> mf' = mf1) \<or> (length (h @ zs1) \<le> m2 \<and> \<not> mf')"
    by blast
  have run: "for_loop step_h (h, m, mf) (x # xs) = Inr (h @ (zs1 @ zs2), m2, mf')"
    using h1(1) h2(1) by simp
  have fresh: "(m2 = m \<and> mf' = mf) \<or> (length h \<le> m2 \<and> \<not> mf')"
    using h1(4) h2(4) by auto
  show ?case
    using run h2(2,3) fresh by (intro exI [of _ "zs1 @ zs2"] exI [of _ m2]) simp
qed

lemma one_pass_h_refines:
  fixes h :: "'a::linorder heap"
  assumes m: "m < length h" and pure: "one_pass R C (h ! m) = Inr (M', mf')"
  shows "\<exists>zs m'. one_pass_h R C h m = Inr (h @ zs, m', mf') \<and> m' < length (h @ zs)
           \<and> (h @ zs) ! m' = M' \<and> ((m' = m \<and> mf') \<or> (length h \<le> m' \<and> \<not> mf'))"
proof -
  from pure obtain M1 mf1 where
    r: "for_loop row_step (h ! m, True) (combinations2 (range_py R)) = Inr (M1, mf1)"
    and c: "for_loop col_step (M1, mf1) (combinations2 (range_py C)) = Inr (M', mf')"
    by (auto simp: one_pass_def split: sum.splits)
  from for_loop_h_refines [of row_step row_step_h, OF row_step_h_refines m r]
  obtain zs1 m1 where
    h1: "for_loop row_step_h (h, m, True) (combinations2 (range_py R)) = Inr (h @ zs1, m1, mf1)"
      "m1 < length (h @ zs1)" "(h @ zs1) ! m1 = M1"
      "(m1 = m \<and> mf1 = True) \<or> (length h \<le> m1 \<and> \<not> mf1)"
    by blast
  from c h1(3) have "for_loop col_step ((h @ zs1) ! m1, mf1) (combinations2 (range_py C)) = Inr (M', mf')"
    by simp
  from for_loop_h_refines [of col_step col_step_h, OF col_step_h_refines h1(2) this]
  obtain zs2 m2 where
    h2: "for_loop col_step_h (h @ zs1, m1, mf1) (combinations2 (range_py C))
           = Inr ((h @ zs1) @ zs2, m2, mf')"
      "m2 < length ((h @ zs1) @ zs2)" "((h @ zs1) @ zs2) ! m2 = M'"
      "(m2 = m1 \<and> mf' = mf1) \<or> (length (h @ zs1) \<le> m2 \<and> \<not> mf')"
    by blast
  have run: "one_pass_h R C h m = Inr (h @ (zs1 @ zs2), m2, mf')"
    using h1(1) h2(1) by (simp add: one_pass_h_def)
  have fresh: "(m2 = m \<and> mf') \<or> (length h \<le> m2 \<and> \<not> mf')"
    using h1(4) h2(4) by auto
  show ?thesis
    using run h2(2,3) fresh by (intro exI [of _ "zs1 @ zs2"] exI [of _ m2]) simp
qed

lemma while_h_spec:
  fixes h :: "'a::linorder heap"
  assumes "m < length h" "wf_array (h ! m)" "shape (h ! m) = (R, C)"
  shows "\<exists>zs r. while_not_max_found_h R C h m = Some (Inr (r, h @ zs)) \<and> r < length (h @ zs)
           \<and> while_not_max_found R C (h ! m) = Some (Inr ((h @ zs) ! r))
           \<and> ((r = m \<and> one_pass R C (h ! m) = Inr (h ! m, True))
               \<or> (length h \<le> r \<and> flat (h ! m) < flat ((h @ zs) ! r)))"
  using assms
proof (induction "card {zs. mset zs = mset (flat (h ! m)) \<and> flat (h ! m) < zs}"
    arbitrary: h m rule: less_induct)
  case less
  from one_pass_spec [OF less.prems(2,3)] obtain M1 mf1 where
    p: "one_pass R C (h ! m) = Inr (M1, mf1)" "wf_array M1" "shape M1 = (R, C)"
      "mset (flat M1) = mset (flat (h ! m))"
      "mf1 \<longrightarrow> M1 = h ! m" "\<not> mf1 \<longrightarrow> flat (h ! m) < flat M1"
    by blast
  from one_pass_h_refines [OF less.prems(1) p(1)] obtain zs1 m1 where
    q: "one_pass_h R C h m = Inr (h @ zs1, m1, mf1)" "m1 < length (h @ zs1)"
      "(h @ zs1) ! m1 = M1" "(m1 = m \<and> mf1) \<or> (length h \<le> m1 \<and> \<not> mf1)"
    by blast
  show ?case
  proof (cases mf1)
    case True
    with p(5) q(4) have eq: "M1 = h ! m" "m1 = m" by auto
    have "while_not_max_found_h R C h m = Some (Inr (m, h @ zs1))"
      using q(1) True eq by (subst while_not_max_found_h.simps) simp
    moreover have "while_not_max_found R C (h ! m) = Some (Inr ((h @ zs1) ! m))"
      using p(1) True q(3) eq by (subst while_not_max_found.simps) simp
    moreover have "one_pass R C (h ! m) = Inr (h ! m, True)"
      using p(1) True eq by simp
    ultimately show ?thesis
      using q(2) eq by (intro exI [of _ zs1] exI [of _ m]) simp
  next
    case False
    with p(6) q(4) have lt: "flat (h ! m) < flat M1" and fresh: "length h \<le> m1" by auto
    have "card {zs. mset zs = mset (flat ((h @ zs1) ! m1)) \<and> flat ((h @ zs1) ! m1) < zs}
            < card {zs. mset zs = mset (flat (h ! m)) \<and> flat (h ! m) < zs}"
      unfolding q(3) using p(4) lt by (rule climb_measure)
    from less.hyps [OF this q(2)] p(2,3) q(3) obtain zs2 r where
      r: "while_not_max_found_h R C (h @ zs1) m1 = Some (Inr (r, (h @ zs1) @ zs2))"
        "r < length ((h @ zs1) @ zs2)"
        "while_not_max_found R C ((h @ zs1) ! m1) = Some (Inr (((h @ zs1) @ zs2) ! r))"
        "(r = m1 \<and> one_pass R C ((h @ zs1) ! m1) = Inr ((h @ zs1) ! m1, True))
           \<or> (length (h @ zs1) \<le> r \<and> flat ((h @ zs1) ! m1) < flat (((h @ zs1) @ zs2) ! r))"
      by auto
    have run: "while_not_max_found_h R C h m = Some (Inr (r, h @ (zs1 @ zs2)))"
      using q(1) False r(1) by (subst while_not_max_found_h.simps) simp
    have pure: "while_not_max_found R C (h ! m) = Some (Inr ((h @ (zs1 @ zs2)) ! r))"
      using p(1) False r(3) q(3) by (subst while_not_max_found.simps) simp
    have far: "length h \<le> r" using r(4) fresh by auto
    have "flat M1 \<le> flat ((h @ (zs1 @ zs2)) ! r)"
    proof (cases "r = m1")
      case True
      have "((h @ zs1) @ zs2) ! m1 = (h @ zs1) ! m1"
        using q(2) by (rule nth_append_left)
      with True q(3) have "(h @ (zs1 @ zs2)) ! r = M1" by simp
      then show ?thesis by simp
    next
      case False
      with r(4) q(3) show ?thesis by auto
    qed
    with lt have "flat (h ! m) < flat ((h @ (zs1 @ zs2)) ! r)" by (rule less_le_trans)
    with run pure far r(2) show ?thesis
      by (intro exI [of _ "zs1 @ zs2"] exI [of _ r]) simp
  qed
qed

lemma maximise_matrix_h_spec:
  fixes h :: "'a::linorder heap"
  assumes "m < length h" "wf_array (h ! m)"
  shows "\<exists>r h'. maximise_matrix_h h m = Some (Inr (r, h')) \<and> r < length h'
           \<and> take (length h) h' = h \<and> h' ! m = h ! m
           \<and> maximise_matrix (h ! m) = Some (Inr (h' ! r))
           \<and> ((r = m \<and> one_pass (fst (shape (h ! m))) (snd (shape (h ! m))) (h ! m) = Inr (h ! m, True))
               \<or> (length h \<le> r \<and> flat (h ! m) < flat (h' ! r)))"
proof -
  from while_h_spec [OF assms, of "fst (shape (h ! m))" "snd (shape (h ! m))"]
  obtain zs r where
    w: "maximise_matrix_h h m = Some (Inr (r, h @ zs))" "r < length (h @ zs)"
      "maximise_matrix (h ! m) = Some (Inr ((h @ zs) ! r))"
      "(r = m \<and> one_pass (fst (shape (h ! m))) (snd (shape (h ! m))) (h ! m) = Inr (h ! m, True))
         \<or> (length h \<le> r \<and> flat (h ! m) < flat ((h @ zs) ! r))"
    by (auto simp: maximise_matrix_h_def maximise_matrix_def)
  have "take (length h) (h @ zs) = h" by simp
  moreover have "(h @ zs) ! m = h ! m" using assms(1) by (rule nth_append_left)
  ultimately show ?thesis using w by blast
qed

text \<open>
  Claim C9 in its original wording fails in its last part. A 1x1 matrix held at reference
  \<open>0\<close>: no swap is tried, and the reference that \<^verbatim>\<open>maximise_matrix\<close> returns is \<open>0\<close>
  again, the caller's own object and not a new one.
\<close>

theorem unchanged_input_returned_itself:
  "maximise_matrix_h [\<lparr>shape = (1, 1), flat = [5 :: int]\<rparr>] 0
     = Some (Inr (0, [\<lparr>shape = (1, 1), flat = [5]\<rparr>]))"
  by code_simp

text \<open>
  Claim C9, as the code has it. Let the caller's array sit at reference \<open>m\<close> of the heap
  \<open>h\<close>. A call of \<^verbatim>\<open>swap_rows\<close> or \<^verbatim>\<open>swap_cols\<close> with valid indices leaves every
  object of \<open>h\<close> as it was and returns a reference to one new object, the swapped copy.
  \<^verbatim>\<open>maximise_matrix\<close> returns, and afterwards the heap starts with \<open>h\<close> unchanged (so
  the caller's array holds the entries it held before); the returned reference points to the
  result, and it is either \<open>m\<close> itself, when the first pass accepted no swap, or a
  reference to an object created during the call, when the result is greater than the input.
\<close>

theorem caller_array_untouched:
  fixes h :: "'a::linorder heap"
  assumes "m < length h" "wf_array (h ! m)"
  shows "(\<forall>i j S. swap_rows (h ! m) i j = Inr S \<longrightarrow> swap_rows_h h m i j = Inr (length h, h @ [S]))
       \<and> (\<forall>i j S. swap_cols (h ! m) i j = Inr S \<longrightarrow> swap_cols_h h m i j = Inr (length h, h @ [S]))
       \<and> (\<exists>r h'. maximise_matrix_h h m = Some (Inr (r, h')) \<and> r < length h'
             \<and> take (length h) h' = h \<and> h' ! m = h ! m
             \<and> maximise_matrix (h ! m) = Some (Inr (h' ! r))
             \<and> ((r = m \<and> one_pass (fst (shape (h ! m))) (snd (shape (h ! m))) (h ! m) = Inr (h ! m, True))
                 \<or> (length h \<le> r \<and> flat (h ! m) < flat (h' ! r))))"
proof (intro conjI allI impI)
  fix i j S assume "swap_rows (h ! m) i j = Inr S"
  then show "swap_rows_h h m i j = Inr (length h, h @ [S])"
    by (simp add: swap_rows_h_result)
next
  fix i j S assume "swap_cols (h ! m) i j = Inr S"
  then show "swap_cols_h h m i j = Inr (length h, h @ [S])"
    by (simp add: swap_cols_h_result)
next
  show "\<exists>r h'. maximise_matrix_h h m = Some (Inr (r, h')) \<and> r < length h'
          \<and> take (length h) h' = h \<and> h' ! m = h ! m
          \<and> maximise_matrix (h ! m) = Some (Inr (h' ! r))
          \<and> ((r = m \<and> one_pass (fst (shape (h ! m))) (snd (shape (h ! m))) (h ! m) = Inr (h ! m, True))
              \<or> (length h \<le> r \<and> flat (h ! m) < flat (h' ! r)))"
    using assms by (rule maximise_matrix_h_spec)
qed

theorem caller_array_untouched_witness:
  "0 < length [example_input] \<and> wf_array ([example_input] ! 0)
   \<and> swap_rows_h [example_input] 0 0 1
       = Inr (1, [example_input, \<lparr>shape = (3, 3), flat = [0, 1, 3,  0, 0, 0,  2, 1, 1]\<rparr>])
   \<and> swap_cols_h [example_input] 0 0 2
       = Inr (1, [example_input, \<lparr>shape = (3, 3), flat = [0, 0, 0,  3, 1, 0,  1, 1, 2]\<rparr>])
   \<and> (\<exists>r h'. maximise_matrix_h [example_input] 0 = Some (Inr (r, h')) \<and> r < length h'
         \<and> h' ! 0 = example_input \<and> h' ! r = reached_image \<and> 1 \<le> r)"
proof -
  have w: "0 < length [example_input]" "wf_array ([example_input] ! 0)"
    using example_input_wf by simp_all
  note t = caller_array_untouched [OF w]
  have sr: "swap_rows ([example_input] ! 0) 0 1 = Inr \<lparr>shape = (3, 3), flat = [0, 1, 3,  0, 0, 0,  2, 1, 1]\<rparr>"
    by code_simp
  have sc: "swap_cols ([example_input] ! 0) 0 2 = Inr \<lparr>shape = (3, 3), flat = [0, 0, 0,  3, 1, 0,  1, 1, 2]\<rparr>"
    by code_simp
  have run: "maximise_matrix ([example_input] ! 0) = Some (Inr reached_image)" by code_simp
  have ne: "reached_image \<noteq> example_input"
    by (simp add: reached_image_def example_input_def)
  from t sr have 1: "swap_rows_h [example_input] 0 0 1
       = Inr (1, [example_input, \<lparr>shape = (3, 3), flat = [0, 1, 3,  0, 0, 0,  2, 1, 1]\<rparr>])"
    by simp
  from t sc have 2: "swap_cols_h [example_input] 0 0 2
       = Inr (1, [example_input, \<lparr>shape = (3, 3), flat = [0, 0, 0,  3, 1, 0,  1, 1, 2]\<rparr>])"
    by simp
  from t obtain r h' where
    m: "maximise_matrix_h [example_input] 0 = Some (Inr (r, h'))" "r < length h'"
      "h' ! 0 = [example_input] ! 0" "maximise_matrix ([example_input] ! 0) = Some (Inr (h' ! r))"
      "r = 0 \<or> length [example_input] \<le> r"
    by blast
  from m(4) run have res: "h' ! r = reached_image" by simp
  have "r \<noteq> 0"
  proof
    assume "r = 0"
    with m(3) res have "reached_image = example_input" by simp
    with ne show False by simp
  qed
  then have "1 \<le> r" by simp
  with m(1,2,3) res have 3: "\<exists>r h'. maximise_matrix_h [example_input] 0 = Some (Inr (r, h')) \<and> r < length h'
         \<and> h' ! 0 = example_input \<and> h' ! r = reached_image \<and> 1 \<le> r"
    by auto
  from w 1 2 3 show ?thesis by blast
qed

end
